theory Spec2Isabelle
  imports Complex_Main
begin

section \<open>The divan.ru price scraper (scripts/parse\_divan.py)\<close>

text \<open>
  The script fetches catalogue pages, extracts price strings with one regular expression,
  removes repeats page by page, and writes the aggregated list to a one-column CSV file.
  The embedding below follows the source function by function. What the script gets from
  outside (the HTTP library, the HTML parser, the location of the script file) is a field of
  the record \<open>env\<close>; the network conversation is an event list carried in the collector's
  state; the file system is an explicit value. Console output is informational only and is
  not part of the model.
\<close>

subsection \<open>Strings\<close>

text \<open>
  A Python \<open>str\<close> is a sequence of Unicode code points, and the regular expression
  classes work on code points, so a string is a list of code points (natural numbers),
  not of bytes. \<open>ustr\<close> embeds an ASCII literal.
\<close>

type_synonym codepoint = nat
type_synonym pystr = "codepoint list"

definition ustr :: "string \<Rightarrow> pystr" where
  "ustr s = map of_char s"

subsection \<open>The character classes of the regular expression\<close>

text \<open>
  For a \<open>str\<close> pattern, \<open>\d\<close> is any character of Unicode category Nd and \<open>\s\<close> is any
  Unicode whitespace character. Every run of decimal digits in Unicode is a block of ten
  consecutive code points; \<open>decimal_zeros\<close> lists the code point of the zero of each block
  (Unicode 14.0, the table of CPython 3.11).
\<close>

definition decimal_zeros :: "codepoint list" where
  "decimal_zeros =
    [48, 1632, 1776, 1984, 2406, 2534, 2662, 2790, 2918, 3046, 3174, 3302, 3430, 3558,
     3664, 3792, 3872, 4160, 4240, 6112, 6160, 6470, 6608, 6784, 6800, 6992, 7088, 7232,
     7248, 42528, 43216, 43264, 43472, 43504, 43600, 44016, 65296, 66720, 68912, 69734,
     69872, 69942, 70096, 70384, 70736, 70864, 71248, 71360, 71472, 71904, 72016, 72784,
     73040, 73120, 92768, 92864, 93008, 120782, 120792, 120802, 120812, 120822, 123200,
     123632, 125264, 130032]"

definition re_digit :: "codepoint \<Rightarrow> bool" where
  "re_digit c = list_ex (\<lambda>z. z \<le> c \<and> c \<le> z + 9) decimal_zeros"

definition re_space :: "codepoint \<Rightarrow> bool" where
  "re_space c =
    (c \<in> set [9, 10, 11, 12, 13, 28, 29, 30, 31, 32, 133, 160, 5760, 8232, 8233, 8239,
               8287, 12288]
     \<or> (8192 \<le> c \<and> c \<le> 8202))"

subsection \<open>PRICE\_PATTERN and findall\<close>

text \<open>
  \<open>PRICE_PATTERN = re.compile(r"\d[\d\s]+\<dots>\.")\<close>, where the dots stand for the three
  Cyrillic letters of the currency abbreviation (U+0440, U+0443, U+0431): one digit, then
  one or more characters that are digits or whitespace, then the literal suffix.
\<close>

definition PRICE_SUFFIX :: pystr where
  "PRICE_SUFFIX = [1088, 1091, 1073, 46]"

definition digit_or_space :: "codepoint \<Rightarrow> bool" where
  "digit_or_space c = (re_digit c \<or> re_space c)"

text \<open>
  The repetition is greedy: the engine first takes the longest run of class characters
  and, while the suffix does not follow, gives characters back one at a time, down to a run
  of length one. \<open>backtrack rest k\<close> tries the run lengths \<open>k, k - 1, \<dots>, 1\<close> on the text
  \<open>rest\<close> that follows the leading digit and returns the first length that works.
\<close>

fun backtrack :: "pystr \<Rightarrow> nat \<Rightarrow> nat option" where
  "backtrack rest 0 = None"
| "backtrack rest (Suc k) =
     (if take 4 (drop (Suc k) rest) = PRICE_SUFFIX then Some (Suc k) else backtrack rest k)"

text \<open>\<open>match_at text\<close> is the length of the match that starts at the head of \<open>text\<close>, if any.\<close>

definition match_at :: "pystr \<Rightarrow> nat option" where
  "match_at text =
     (case text of
        [] \<Rightarrow> None
      | c # rest \<Rightarrow>
          if re_digit c
          then (case backtrack rest (length (takeWhile digit_or_space rest)) of
                  None \<Rightarrow> None
                | Some k \<Rightarrow> Some (1 + k + 4))
          else None)"

text \<open>
  \<open>findall\<close> scans from left to right: a match is reported and the scan resumes right after
  it; where no match starts, the scan moves on by one character.
\<close>

function findall :: "pystr \<Rightarrow> pystr list" where
  "findall text =
     (case match_at text of
        Some n \<Rightarrow> take n text # findall (drop n text)
      | None \<Rightarrow> (case text of [] \<Rightarrow> [] | c # rest \<Rightarrow> findall rest))"
  by pat_completeness auto
termination
proof (relation "measure length")
  show "wf (measure length)" by simp
next
  fix s :: pystr and n :: nat
  assume m: "match_at s = Some n"
  then obtain c rest where t: "s = c # rest"
    by (cases s) (simp_all add: match_at_def)
  from m t have "0 < n"
    by (auto simp: match_at_def split: if_splits option.splits)
  with t show "(drop n s, s) \<in> measure length" by simp
next
  fix s :: pystr and c :: codepoint and rest :: pystr
  assume "s = c # rest"
  then show "(rest, s) \<in> measure length" by simp
qed

subsection \<open>extract\_prices\_from\_html\<close>

text \<open>
  The environment of a run. \<open>requests_get url\<close> is the outcome of
  \<open>requests.get(url, headers=HEADERS, timeout=REQUEST_TIMEOUT)\<close>; \<open>bs4_get_text html\<close> is
  \<open>BeautifulSoup(html, "html.parser").get_text(" ", strip=True)\<close>; \<open>script_file\<close> is
  \<open>__file__\<close>, as a list of path components.
\<close>

datatype http_result = RequestException | Response nat pystr

type_synonym path = "pystr list"

record env =
  requests_get :: "pystr \<Rightarrow> http_result"
  bs4_get_text :: "pystr \<Rightarrow> pystr"
  script_file :: path

text \<open>The loop over \<open>matches\<close> with the set \<open>seen\<close> and the list \<open>unique_prices\<close>.\<close>

fun unique_loop :: "pystr list \<Rightarrow> pystr set \<Rightarrow> pystr list \<Rightarrow> pystr list" where
  "unique_loop [] seen unique_prices = unique_prices"
| "unique_loop (price # matches) seen unique_prices =
     (if price \<notin> seen
      then unique_loop matches (insert price seen) (unique_prices @ [price])
      else unique_loop matches seen unique_prices)"

definition extract_prices_from_html :: "env \<Rightarrow> pystr \<Rightarrow> pystr list" where
  "extract_prices_from_html e html =
     (let page_text = bs4_get_text e html;
          matches = findall page_text
      in unique_loop matches {} [])"

declare findall.simps [simp del]

subsection \<open>fetch\_page\<close>

text \<open>
  \<open>response.raise_for_status()\<close> raises \<open>HTTPError\<close>, a \<open>RequestException\<close>, for a status
  code from 400 to 599; every \<open>RequestException\<close> is caught and turned into \<open>None\<close>.
\<close>

definition fetch_page :: "env \<Rightarrow> pystr \<Rightarrow> pystr option" where
  "fetch_page e url =
     (case requests_get e url of
        RequestException \<Rightarrow> None
      | Response status body \<Rightarrow> if 400 \<le> status \<and> status < 600 then None else Some body)"

subsection \<open>build\_page\_url\<close>

text \<open>\<open>str_int\<close> is Python's \<open>str\<close> on an \<open>int\<close>, which is what the f-string applies to \<open>page\<close>.\<close>

fun nat_digits :: "nat \<Rightarrow> pystr" where
  "nat_digits n = (if n < 10 then [48 + n] else nat_digits (n div 10) @ [48 + n mod 10])"

declare nat_digits.simps [simp del]

definition str_int :: "int \<Rightarrow> pystr" where
  "str_int i = (if i < 0 then 45 # nat_digits (nat (- i)) else nat_digits (nat i))"

definition build_page_url :: "pystr \<Rightarrow> int \<Rightarrow> pystr" where
  "build_page_url base_url page =
     (if page = 1 then base_url else base_url @ ustr ''?page='' @ str_int page)"

subsection \<open>collect\_prices\<close>

text \<open>
  The state of the loop is the list \<open>all_prices\<close> together with the events of the run so
  far: each call of \<open>fetch_page\<close>, of \<open>extract_prices_from_html\<close> and of \<open>time.sleep\<close>,
  labelled with the value of \<open>page_num\<close> at the call.

  \<open>time.sleep\<close> first converts its argument to a signed 64-bit count of nanoseconds: the
  product with \<open>10\<^sup>9\<close> is rounded to a double, and \<open>OverflowError\<close> is raised unless that
  double is at least \<open>- 2\<^sup>6\<^sup>3\<close> and less than \<open>2\<^sup>6\<^sup>3\<close>. The doubles next to \<open>2\<^sup>6\<^sup>3\<close> are
  1024 apart below it and 2048 apart beyond it, and a tie goes to the power of two, so the
  rounded product is \<open>2\<^sup>6\<^sup>3\<close> or more exactly when the product is at least \<open>2\<^sup>6\<^sup>3 - 512\<close>,
  and is below \<open>- 2\<^sup>6\<^sup>3\<close> exactly when the product is below \<open>- (2\<^sup>6\<^sup>3 + 1024)\<close>. A count that
  passes and is negative raises \<open>ValueError\<close>. The delay is a real number here (no NaN, no
  infinity, both of which raise as well).
\<close>

datatype error = ValueError | OverflowError | OSError

datatype event = Fetch int pystr | Extract int pystr | Sleep int real

record run_state =
  all_prices :: "pystr list"
  events :: "event list"

definition time_sleep :: "int \<Rightarrow> real \<Rightarrow> run_state \<Rightarrow> error + run_state" where
  "time_sleep page_num secs st =
     (if secs * 10 ^ 9 < - (2 ^ 63 + 1024) \<or> 2 ^ 63 - 512 \<le> secs * 10 ^ 9
      then Inl OverflowError
      else if secs < 0 then Inl ValueError
      else Inr (st\<lparr>events := events st @ [Sleep page_num secs]\<rparr>))"

text \<open>One iteration of \<open>for page_num in range(1, pages + 1)\<close>.\<close>

definition loop_body :: "env \<Rightarrow> pystr \<Rightarrow> int \<Rightarrow> real \<Rightarrow> int \<Rightarrow> run_state \<Rightarrow> error + run_state" where
  "loop_body e base_url pages delay page_num st =
     (let url = build_page_url base_url page_num;
          html = fetch_page e url;
          st1 = st\<lparr>events := events st @ [Fetch page_num url]\<rparr>
      in case html of
           None \<Rightarrow> Inr st1
         | Some h \<Rightarrow>
             let page_prices = extract_prices_from_html e h;
                 st2 = st1\<lparr>all_prices := all_prices st1 @ page_prices,
                           events := events st1 @ [Extract page_num h]\<rparr>
             in if page_num < pages then time_sleep page_num delay st2 else Inr st2)"

fun for_pages :: "env \<Rightarrow> pystr \<Rightarrow> int \<Rightarrow> real \<Rightarrow> int list \<Rightarrow> run_state \<Rightarrow> error + run_state" where
  "for_pages e base_url pages delay [] st = Inr st"
| "for_pages e base_url pages delay (page_num # nums) st =
     (case loop_body e base_url pages delay page_num st of
        Inl err \<Rightarrow> Inl err
      | Inr st' \<Rightarrow> for_pages e base_url pages delay nums st')"

text \<open>
  \<open>collect_prices\<close> returns the final state; the Python function returns its \<open>all_prices\<close>.
\<close>

definition collect_prices :: "env \<Rightarrow> pystr \<Rightarrow> int \<Rightarrow> real \<Rightarrow> error + run_state" where
  "collect_prices e base_url pages delay =
     for_pages e base_url pages delay [1..pages] \<lparr>all_prices = [], events = []\<rparr>"

subsection \<open>save\_to\_csv\<close>

text \<open>
  A file system is a set of directories and a map from paths to the text of regular files;
  a path is the list of its components below the root (or below the working directory), so
  the empty path is a directory that always exists and \<open>parent\<close> drops the last
  component. A file holds the text written to it: the encoding (\<open>utf-8-sig\<close>, which puts a
  byte-order mark in front) and the line-separator translation of text mode lie below this
  level. The errors modelled are the ones that follow from the state (a regular file where
  a directory is needed, a directory where the file is to be opened); all are \<open>OSError\<close>s.
  Permissions and a full disk are not modelled.
\<close>

record filesystem =
  dirs :: "path set"
  files :: "path \<rightharpoonup> pystr"

definition is_dir :: "filesystem \<Rightarrow> path \<Rightarrow> bool" where
  "is_dir fs p = (p = [] \<or> p \<in> dirs fs)"

definition is_file :: "filesystem \<Rightarrow> path \<Rightarrow> bool" where
  "is_file fs p = (files fs p \<noteq> None)"

definition parent :: "path \<Rightarrow> path" where
  "parent p = butlast p"

text \<open>The path itself and its ancestors, the root excluded, outermost first.\<close>

definition parents_and_self :: "path \<Rightarrow> path list" where
  "parents_and_self p = map (\<lambda>n. take n p) [1..<Suc (length p)]"

text \<open>
  \<open>p.mkdir(parents=True, exist_ok=True)\<close>: fails, creating nothing, when \<open>p\<close> or one of its
  ancestors is a regular file; otherwise every missing directory on the way is created.
\<close>

definition mkdir_parents :: "path \<Rightarrow> filesystem \<Rightarrow> (error + unit) \<times> filesystem" where
  "mkdir_parents p fs =
     (if list_ex (is_file fs) (parents_and_self p) then (Inl OSError, fs)
      else (Inr (), fs\<lparr>dirs := dirs fs \<union> set (parents_and_self p)\<rparr>))"

text \<open>\<open>open(p, "w")\<close>: creates the file or truncates it.\<close>

definition open_w :: "path \<Rightarrow> filesystem \<Rightarrow> (error + unit) \<times> filesystem" where
  "open_w p fs =
     (if is_dir fs p \<or> \<not> is_dir fs (parent p) then (Inl OSError, fs)
      else (Inr (), fs\<lparr>files := (files fs)(p \<mapsto> [])\<rparr>))"

definition f_write :: "path \<Rightarrow> pystr \<Rightarrow> filesystem \<Rightarrow> filesystem" where
  "f_write p s fs =
     fs\<lparr>files := (files fs)(p \<mapsto> (case files fs p of None \<Rightarrow> [] | Some c \<Rightarrow> c) @ s)\<rparr>"

text \<open>\<open>price.replace('"', '""')\<close>; the double quote is code point 34, the line feed 10.\<close>

definition replace_quotes :: "pystr \<Rightarrow> pystr" where
  "replace_quotes price = concat (map (\<lambda>c. if c = 34 then [34, 34] else [c]) price)"

fun write_prices :: "path \<Rightarrow> pystr list \<Rightarrow> filesystem \<Rightarrow> filesystem" where
  "write_prices f [] fs = fs"
| "write_prices f (price # prices) fs =
     (let escaped = replace_quotes price
      in write_prices f prices (f_write f ([34] @ escaped @ [34, 10]) fs))"

definition save_to_csv :: "pystr list \<Rightarrow> path \<Rightarrow> filesystem \<Rightarrow> (error + unit) \<times> filesystem" where
  "save_to_csv prices output_path fs =
     (case mkdir_parents (parent output_path) fs of
        (Inl err, fs1) \<Rightarrow> (Inl err, fs1)
      | (Inr u, fs1) \<Rightarrow>
          (case open_w output_path fs1 of
             (Inl err, fs2) \<Rightarrow> (Inl err, fs2)
           | (Inr v, fs2) \<Rightarrow>
               (Inr (),
                write_prices output_path prices
                  (f_write output_path (ustr ''price_raw'' @ [10]) fs2))))"

subsection \<open>Configuration and main\<close>

definition BASE_URL :: pystr where
  "BASE_URL = ustr ''https://www.divan.ru/category/divany''"






subsection \<open>Reading the CSV file back\<close>

text \<open>
  The script has no reader. The one below is the inverse that the round-trip property
  speaks of: it skips the header line and then reads records of the form quote, field,
  quote, line feed, where a doubled quote inside the field stands for one quote. It
  returns \<open>None\<close> on any other input.
\<close>

datatype reader_state = Row_start | In_field | After_quote

fun read_rows :: "reader_state \<Rightarrow> pystr \<Rightarrow> pystr list \<Rightarrow> pystr \<Rightarrow> pystr list option" where
  "read_rows Row_start field rows [] = Some rows"
| "read_rows Row_start field rows (c # cs) =
     (if c = 34 then read_rows In_field [] rows cs else None)"
| "read_rows In_field field rows [] = None"
| "read_rows In_field field rows (c # cs) =
     (if c = 34 then read_rows After_quote field rows cs
      else read_rows In_field (field @ [c]) rows cs)"
| "read_rows After_quote field rows [] = None"
| "read_rows After_quote field rows (c # cs) =
     (if c = 34 then read_rows In_field (field @ [34]) rows cs
      else if c = 10 then read_rows Row_start [] (rows @ [field]) cs
      else None)"

definition read_csv :: "pystr \<Rightarrow> pystr list option" where
  "read_csv content =
     (case dropWhile (\<lambda>c. c \<noteq> 10) content of
        [] \<Rightarrow> None
      | nl # records \<Rightarrow> read_rows Row_start [] [] records)"

subsection \<open>Notions used to state the properties\<close>

text \<open>
  What page \<open>k\<close> adds to the aggregated list, and the events of its iteration: the fetch,
  then, if a body came back, the extraction and, unless \<open>k\<close> is the last page, the pause.
\<close>

definition page_prices :: "env \<Rightarrow> pystr \<Rightarrow> int \<Rightarrow> pystr list" where
  "page_prices e base_url k =
     (case fetch_page e (build_page_url base_url k) of
        None \<Rightarrow> []
      | Some h \<Rightarrow> extract_prices_from_html e h)"

definition page_events :: "env \<Rightarrow> pystr \<Rightarrow> int \<Rightarrow> real \<Rightarrow> int \<Rightarrow> event list" where
  "page_events e base_url pages delay k =
     Fetch k (build_page_url base_url k) #
     (case fetch_page e (build_page_url base_url k) of
        None \<Rightarrow> []
      | Some h \<Rightarrow> Extract k h # (if k < pages then [Sleep k delay] else []))"

text \<open>
  The file format: the header line, then one record per price, the value between double
  quotes with every double quote in it doubled, and a line feed.
\<close>

definition csv_row :: "pystr \<Rightarrow> pystr" where
  "csv_row price = [34] @ concat (map (\<lambda>c. if c = 34 then [34, 34] else [c]) price) @ [34, 10]"

definition csv_text :: "pystr list \<Rightarrow> pystr" where
  "csv_text prices = ustr ''price_raw'' @ [10] @ concat (map csv_row prices)"

text \<open>The number that a string of ASCII digits denotes in base ten.\<close>

definition decimal_value :: "pystr \<Rightarrow> nat" where
  "decimal_value ds = foldl (\<lambda>a c. 10 * a + (c - 48)) 0 ds"

subsection \<open>Example runs\<close>

text \<open>
  Three prices, and the page of the specification's extraction scenario: a paragraph
  element whose text names the same price twice. Its rendered text is the text between
  the tags.
\<close>

definition price_68_990 :: pystr where
  "price_68_990 = [54, 56, 32, 57, 57, 48, 32, 1088, 1091, 1073, 46]"

definition price_45_990 :: pystr where
  "price_45_990 = [52, 53, 32, 57, 57, 48, 32, 1088, 1091, 1073, 46]"

definition price_10_000 :: pystr where
  "price_10_000 = [49, 48, 32, 48, 48, 48, 32, 1088, 1091, 1073, 46]"

definition scenario_text :: pystr where
  "scenario_text =
     [1062, 1077, 1085, 1072, 32, 54, 56, 32, 57, 57, 48, 32, 1088, 1091, 1073, 46, 32,
      1062, 1077, 1085, 1072, 32, 54, 56, 32, 57, 57, 48, 32, 1088, 1091, 1073, 46, 32,
      1089, 1082, 1080, 1076, 1082, 1072]"

definition scenario_html :: pystr where
  "scenario_html = ustr ''<p>'' @ scenario_text @ ustr ''</p>''"

text \<open>
  Environments for concrete runs. The parser renders the scenario page as above and a body
  without markup as itself. In \<open>same_price_env\<close> every page answers with the same one-price
  body; in \<open>page2_fails_env\<close> only the first page of the configured catalogue answers; in
  \<open>offline_env\<close> every request fails; in \<open>scenario_env\<close> every page is the scenario page.
\<close>

definition render :: "pystr \<Rightarrow> pystr" where
  "render html = (if html = scenario_html then scenario_text else html)"

definition same_price_env :: env where
  "same_price_env =
     \<lparr>requests_get = (\<lambda>url. Response 200 price_10_000),
      bs4_get_text = render,
      script_file = [ustr ''scripts'', ustr ''parse_divan.py'']\<rparr>"



definition scenario_env :: env where
  "scenario_env =
     \<lparr>requests_get = (\<lambda>url. Response 200 scenario_html),
      bs4_get_text = render,
      script_file = [ustr ''scripts'', ustr ''parse_divan.py'']\<rparr>"

definition empty_fs :: filesystem where
  "empty_fs = \<lparr>dirs = {}, files = Map.empty\<rparr>"

section \<open>Properties\<close>

subsection \<open>The pattern and the matches\<close>

lemma backtrack_Some:
  "backtrack rest m = Some k \<Longrightarrow> 0 < k \<and> k \<le> m \<and> take 4 (drop k rest) = PRICE_SUFFIX"
  by (induction m) (auto split: if_splits)

lemma take_run_in_class:
  "k \<le> length (takeWhile P xs) \<Longrightarrow> \<forall>c\<in>set (take k xs). P c"
proof
  fix c
  assume k: "k \<le> length (takeWhile P xs)" and c: "c \<in> set (take k xs)"
  have "take k (takeWhile P xs) = take k (take (length (takeWhile P xs)) xs)"
    by (simp only: takeWhile_eq_take [symmetric])
  also have "\<dots> = take k xs" using k by (simp add: min_def)
  finally have eq: "take k xs = take k (takeWhile P xs)" by (rule sym)
  from c have "c \<in> set (take k (takeWhile P xs))" by (simp only: eq)
  then have "c \<in> set (takeWhile P xs)" by (rule in_set_takeD)
  then show "P c" by (rule set_takeWhileD [THEN conjunct2])
qed

lemma match_at_shape:
  assumes "match_at t = Some n"
  shows "\<exists>d run. take n t = d # run @ PRICE_SUFFIX \<and> re_digit d \<and> run \<noteq> []
           \<and> (\<forall>c\<in>set run. digit_or_space c)"
proof -
  from assms obtain d rest where t: "t = d # rest"
    by (cases t) (simp_all add: match_at_def)
  from assms t obtain k where d: "re_digit d"
    and b: "backtrack rest (length (takeWhile digit_or_space rest)) = Some k"
    and n: "n = Suc (k + 4)"
    by (auto simp: match_at_def split: if_splits option.splits)
  from backtrack_Some [OF b] have k0: "0 < k"
    and kl: "k \<le> length (takeWhile digit_or_space rest)"
    and sfx: "take 4 (drop k rest) = PRICE_SUFFIX" by simp_all
  have len: "k + 4 \<le> length rest"
  proof -
    have "length (take 4 (drop k rest)) = 4" using sfx by (simp add: PRICE_SUFFIX_def)
    then show ?thesis by simp
  qed
  have "take n t = d # take (k + 4) rest" unfolding t n by (rule take_Suc_Cons)
  also have "take (k + 4) rest = take k rest @ take 4 (drop k rest)"
    by (simp add: take_add)
  finally have shape: "take n t = d # take k rest @ PRICE_SUFFIX" using sfx by simp
  have ne: "take k rest \<noteq> []" using k0 len by auto
  from take_run_in_class [OF kl] have cls: "\<forall>c\<in>set (take k rest). digit_or_space c" .
  from shape d ne cls show ?thesis by blast
qed

lemma findall_shape:
  "p \<in> set (findall t) \<Longrightarrow>
     \<exists>d run. p = d # run @ PRICE_SUFFIX \<and> re_digit d \<and> run \<noteq> []
       \<and> (\<forall>c\<in>set run. digit_or_space c)"
proof (induction t rule: findall.induct)
  case (1 t)
  have unf: "findall t =
     (case match_at t of
        Some n \<Rightarrow> take n t # findall (drop n t)
      | None \<Rightarrow> (case t of [] \<Rightarrow> [] | c # rest \<Rightarrow> findall rest))"
    by (rule findall.simps)
  show ?case
  proof (cases "match_at t")
    case None
    have step: "findall t = (case t of [] \<Rightarrow> [] | c # rest \<Rightarrow> findall rest)"
      by (subst unf) (simp only: None option.case)
    show ?thesis
    proof (cases t)
      case Nil
      with step have "findall t = []" by simp
      with "1.prems" show ?thesis by simp
    next
      case (Cons c rest)
      with step have "findall t = findall rest" by simp
      with "1.prems" have "p \<in> set (findall rest)" by simp
      with "1.IH"(1) [OF None Cons] show ?thesis .
    qed
  next
    case (Some n)
    have "findall t = take n t # findall (drop n t)"
      by (subst unf) (simp only: Some option.case)
    with "1.prems" have "p = take n t \<or> p \<in> set (findall (drop n t))" by simp
    then show ?thesis
    proof
      assume "p = take n t"
      with match_at_shape [OF Some] show ?thesis by simp
    next
      assume "p \<in> set (findall (drop n t))"
      with "1.IH"(2) [OF Some] show ?thesis .
    qed
  qed
qed

text \<open>
  The matches that \<open>findall\<close> reports lie in the text from left to right and do not
  overlap: the text is a gap, the first match, a gap, the second match, and so on.
\<close>

lemma findall_in_text_order:
  "\<exists>gaps. length gaps = Suc (length (findall t)) \<and>
          t = hd gaps @ concat (map2 (@) (findall t) (tl gaps))"
proof (induction t rule: findall.induct)
  case (1 t)
  have unf: "findall t =
     (case match_at t of
        Some n \<Rightarrow> take n t # findall (drop n t)
      | None \<Rightarrow> (case t of [] \<Rightarrow> [] | c # rest \<Rightarrow> findall rest))"
    by (rule findall.simps)
  show ?case
  proof (cases "match_at t")
    case None
    have step: "findall t = (case t of [] \<Rightarrow> [] | c # rest \<Rightarrow> findall rest)"
      by (subst unf) (simp only: None option.case)
    show ?thesis
    proof (cases t)
      case Nil
      with step have f: "findall t = []" by simp
      show ?thesis unfolding f using Nil by (intro exI [of _ "[[]]"]) simp
    next
      case (Cons c rest)
      with step have f: "findall t = findall rest" by simp
      from "1.IH"(1) [OF None Cons] obtain gaps
        where l: "length gaps = Suc (length (findall rest))"
          and d: "rest = hd gaps @ concat (map2 (@) (findall rest) (tl gaps))" by blast
      from d Cons have "t = hd ((c # hd gaps) # tl gaps) @
          concat (map2 (@) (findall rest) (tl ((c # hd gaps) # tl gaps)))" by simp
      moreover from l have "length ((c # hd gaps) # tl gaps) = Suc (length (findall rest))"
        by simp
      ultimately show ?thesis unfolding f by blast
    qed
  next
    case (Some n)
    have f: "findall t = take n t # findall (drop n t)"
      by (subst unf) (simp only: Some option.case)
    from "1.IH"(2) [OF Some] obtain gaps
      where l: "length gaps = Suc (length (findall (drop n t)))"
        and d: "drop n t = hd gaps @ concat (map2 (@) (findall (drop n t)) (tl gaps))"
      by blast
    from l obtain g gs where g: "gaps = g # gs" by (cases gaps) simp_all
    have "t = take n t @ drop n t" by simp
    also have "drop n t = g @ concat (map2 (@) (findall (drop n t)) gs)"
      using d unfolding g by simp
    finally have "t = hd ([] # gaps) @
        concat (map2 (@) (take n t # findall (drop n t)) (tl ([] # gaps)))"
      unfolding g by simp
    moreover from l have "length ([] # gaps) = Suc (length (take n t # findall (drop n t)))"
      by simp
    ultimately show ?thesis unfolding f by blast
  qed
qed

subsection \<open>The loop that removes repeats\<close>



lemma unique_loop_step:
  "x \<notin> set acc \<Longrightarrow>
   unique_loop (x # xs) (set acc) acc = unique_loop xs (set (acc @ [x])) (acc @ [x])"
  by simp

lemma unique_loop_distinct:
  "distinct acc \<Longrightarrow> distinct (unique_loop ms (set acc) acc)"
proof (induction ms arbitrary: acc)
  case Nil
  then show ?case by simp
next
  case (Cons x xs)
  show ?case
  proof (cases "x \<in> set acc")
    case True
    with Cons show ?thesis by simp
  next
    case False
    with Cons.prems have d: "distinct (acc @ [x])" by simp
    from Cons.IH [OF d] show ?thesis by (simp only: unique_loop_step [OF False])
  qed
qed

lemma unique_loop_set:
  "set (unique_loop ms (set acc) acc) = set acc \<union> set ms"
proof (induction ms arbitrary: acc)
  case Nil
  show ?case by simp
next
  case (Cons x xs)
  show ?case
  proof (cases "x \<in> set acc")
    case True
    then have "unique_loop (x # xs) (set acc) acc = unique_loop xs (set acc) acc" by simp
    then have "set (unique_loop (x # xs) (set acc) acc) = set acc \<union> set xs"
      by (simp only: Cons.IH)
    also from True have "set acc \<union> set xs = set acc \<union> set (x # xs)" by auto
    finally show ?thesis .
  next
    case False
    have "set (unique_loop (x # xs) (set acc) acc) = set (acc @ [x]) \<union> set xs"
      unfolding unique_loop_step [OF False] by (rule Cons.IH)
    also have "set (acc @ [x]) \<union> set xs = set acc \<union> set (x # xs)" by auto
    finally show ?thesis .
  qed
qed

subsection \<open>The collector in closed form\<close>

lemma time_sleep_returns:
  assumes "0 \<le> secs" and "secs * 10 ^ 9 < 2 ^ 63 - 512"
  shows "time_sleep k secs st = Inr (st\<lparr>events := events st @ [Sleep k secs]\<rparr>)"
proof -
  from assms(1) have "0 \<le> secs * 10 ^ 9" by simp
  then have "\<not> secs * 10 ^ 9 < - (2 ^ 63 + 1024)" by simp
  with assms show ?thesis by (simp add: time_sleep_def)
qed

lemma loop_body_closed:
  "0 \<le> delay \<Longrightarrow> delay * 10 ^ 9 < 2 ^ 63 - 512 \<Longrightarrow>
   loop_body e b n delay k st =
     Inr (st\<lparr>all_prices := all_prices st @ page_prices e b k,
             events := events st @ page_events e b n delay k\<rparr>)"
  by (cases st)
     (simp add: loop_body_def page_prices_def page_events_def time_sleep_returns Let_def
           split: option.splits)

lemma for_pages_closed:
  "0 \<le> delay \<Longrightarrow> delay * 10 ^ 9 < 2 ^ 63 - 512 \<Longrightarrow>
   for_pages e b n delay nums st =
     Inr (st\<lparr>all_prices := all_prices st @ concat (map (page_prices e b) nums),
             events := events st @ concat (map (page_events e b n delay) nums)\<rparr>)"
proof (induction nums arbitrary: st)
  case Nil
  show ?case by (cases st) simp
next
  case (Cons k nums)
  show ?case
    by (cases st) (simp add: loop_body_closed [OF Cons.prems] Cons.IH [OF Cons.prems])
qed

lemma collect_prices_closed:
  "0 \<le> delay \<Longrightarrow> delay * 10 ^ 9 < 2 ^ 63 - 512 \<Longrightarrow>
   collect_prices e b n delay =
     Inr \<lparr>all_prices = concat (map (page_prices e b) [1..n]),
          events = concat (map (page_events e b n delay) [1..n])\<rparr>"
  by (simp add: collect_prices_def for_pages_closed)



lemma loop_body_Inr:
  "loop_body e b n delay k st = Inr st' \<Longrightarrow>
   st' = st\<lparr>all_prices := all_prices st @ page_prices e b k,
             events := events st @ page_events e b n delay k\<rparr>"
  by (cases st)
     (auto simp: loop_body_def page_prices_def page_events_def time_sleep_def Let_def
           split: option.splits if_splits)

lemma for_pages_Inr:
  "for_pages e b n delay nums st = Inr st' \<Longrightarrow>
   st' = st\<lparr>all_prices := all_prices st @ concat (map (page_prices e b) nums),
             events := events st @ concat (map (page_events e b n delay) nums)\<rparr>"
proof (induction nums arbitrary: st)
  case Nil
  then show ?case by (cases st) simp
next
  case (Cons k nums)
  from Cons.prems obtain st1 where b: "loop_body e b n delay k st = Inr st1"
    and r: "for_pages e b n delay nums st1 = Inr st'"
    by (auto split: sum.splits)
  from loop_body_Inr [OF b] Cons.IH [OF r] show ?case by (cases st) simp
qed

lemma collect_prices_Inr:
  "collect_prices e b n delay = Inr st \<Longrightarrow>
   st = \<lparr>all_prices = concat (map (page_prices e b) [1..n]),
         events = concat (map (page_events e b n delay) [1..n])\<rparr>"
  unfolding collect_prices_def by (drule for_pages_Inr) simp






subsection \<open>Decimal digits\<close>

lemma nat_digits_value: "decimal_value (nat_digits n) = n"
proof (induction n rule: nat_digits.induct)
  case (1 n)
  show ?case
  proof (cases "n < 10")
    case True
    then show ?thesis by (subst nat_digits.simps) (simp add: decimal_value_def)
  next
    case False
    have "decimal_value (nat_digits n) =
            10 * decimal_value (nat_digits (n div 10)) + n mod 10"
      using False by (subst nat_digits.simps) (simp add: decimal_value_def)
    with "1.IH" [OF False] show ?thesis by simp
  qed
qed

lemma nat_digits_range: "c \<in> set (nat_digits n) \<Longrightarrow> 48 \<le> c \<and> c \<le> 57"
proof (induction n rule: nat_digits.induct)
  case (1 n)
  show ?case
  proof (cases "n < 10")
    case True
    with "1.prems" show ?thesis by (subst (asm) nat_digits.simps) auto
  next
    case False
    with "1.prems" have "c \<in> set (nat_digits (n div 10)) \<or> c = 48 + n mod 10"
      by (subst (asm) nat_digits.simps) auto
    then show ?thesis
    proof
      assume "c \<in> set (nat_digits (n div 10))"
      with "1.IH" [OF False] show ?thesis .
    next
      assume c: "c = 48 + n mod 10"
      have "n mod 10 < 10" by simp
      with c show ?thesis by arith
    qed
  qed
qed

lemma nat_digits_hd: "0 < n \<Longrightarrow> nat_digits n \<noteq> [] \<and> hd (nat_digits n) \<noteq> 48"
proof (induction n rule: nat_digits.induct)
  case (1 n)
  show ?case
  proof (cases "n < 10")
    case True
    with "1.prems" show ?thesis by (subst (1 2) nat_digits.simps) simp
  next
    case False
    then have "0 < n div 10" by simp
    from "1.IH" [OF False this] have ne: "nat_digits (n div 10) \<noteq> []"
      and h: "hd (nat_digits (n div 10)) \<noteq> 48" by simp_all
    have unf: "nat_digits n = nat_digits (n div 10) @ [48 + n mod 10]"
      using False by (subst nat_digits.simps) simp
    from ne h show ?thesis unfolding unf by simp
  qed
qed

subsection \<open>The writer and the reader\<close>

lemma write_prices_closed:
  "files fs f = Some c \<Longrightarrow>
   write_prices f prices fs = fs\<lparr>files := (files fs)(f \<mapsto> c @ concat (map csv_row prices))\<rparr>"
proof (induction prices arbitrary: fs c)
  case Nil
  then show ?case by (cases fs) (simp add: fun_upd_idem)
next
  case (Cons p ps)
  let ?fs = "f_write f ([34] @ replace_quotes p @ [34, 10]) fs"
  have fs1: "files ?fs f = Some (c @ csv_row p)"
    using Cons.prems by (simp add: f_write_def csv_row_def replace_quotes_def)
  have "write_prices f (p # ps) fs = write_prices f ps ?fs" by (simp add: Let_def)
  also have "\<dots> = ?fs\<lparr>files := (files ?fs)(f \<mapsto> (c @ csv_row p) @ concat (map csv_row ps))\<rparr>"
    by (rule Cons.IH [OF fs1])
  also have "\<dots> = fs\<lparr>files := (files fs)(f \<mapsto> c @ concat (map csv_row (p # ps)))\<rparr>"
    by (cases fs) (simp add: f_write_def)
  finally show ?case .
qed

lemma parents_and_self_shorter:
  "q \<in> set (parents_and_self p) \<Longrightarrow> q \<noteq> [] \<and> length q \<le> length p"
  by (auto simp: parents_and_self_def)

lemma self_in_parents_and_self: "p \<noteq> [] \<Longrightarrow> p \<in> set (parents_and_self p)"
proof -
  assume "p \<noteq> []"
  then have "length p \<in> set [1..<Suc (length p)]" by (cases p) simp_all
  then have "take (length p) p \<in> set (parents_and_self p)"
    unfolding parents_and_self_def by (simp only: set_map) (rule imageI)
  then show ?thesis by simp
qed

lemma save_to_csv_result:
  assumes nofile: "\<not> list_ex (is_file fs) (parents_and_self (parent p))"
    and nodir: "\<not> is_dir fs p"
  shows "save_to_csv prices p fs =
           (Inr (), fs\<lparr>dirs := dirs fs \<union> set (parents_and_self (parent p)),
                        files := (files fs)(p \<mapsto> csv_text prices)\<rparr>)"
proof -
  let ?fs1 = "fs\<lparr>dirs := dirs fs \<union> set (parents_and_self (parent p))\<rparr>"
  let ?fs2 = "?fs1\<lparr>files := (files ?fs1)(p \<mapsto> [])\<rparr>"
  let ?fs3 = "f_write p (ustr ''price_raw'' @ [10]) ?fs2"
  from nodir have pne: "p \<noteq> []" and pnd: "p \<notin> dirs fs" by (simp_all add: is_dir_def)
  have mk: "mkdir_parents (parent p) fs = (Inr (), ?fs1)"
    using nofile by (simp add: mkdir_parents_def)
  have notin: "p \<notin> set (parents_and_self (parent p))"
  proof
    assume "p \<in> set (parents_and_self (parent p))"
    from parents_and_self_shorter [OF this] have "length p \<le> length (parent p)" by simp
    then have "length p \<le> length p - 1" by (simp only: parent_def length_butlast)
    moreover from pne have "0 < length p" by simp
    ultimately show False by arith
  qed
  have d1: "\<not> is_dir ?fs1 p" using pne pnd notin by (simp add: is_dir_def)
  have d2: "is_dir ?fs1 (parent p)"
    using self_in_parents_and_self [of "parent p"] by (auto simp: is_dir_def)
  have op: "open_w p ?fs1 = (Inr (), ?fs2)" using d1 d2 by (simp add: open_w_def)
  have f3: "files ?fs3 p = Some (ustr ''price_raw'' @ [10])" by (simp add: f_write_def)
  have "save_to_csv prices p fs = (Inr (), write_prices p prices ?fs3)"
    by (simp add: save_to_csv_def mk op)
  also have "write_prices p prices ?fs3 =
      ?fs3\<lparr>files := (files ?fs3)(p \<mapsto> (ustr ''price_raw'' @ [10]) @ concat (map csv_row prices))\<rparr>"
    by (rule write_prices_closed [OF f3])
  also have "\<dots> = fs\<lparr>dirs := dirs fs \<union> set (parents_and_self (parent p)),
                        files := (files fs)(p \<mapsto> csv_text prices)\<rparr>"
    by (cases fs) (simp add: f_write_def csv_text_def)
  finally show ?thesis .
qed

lemma read_field:
  "read_rows In_field field rows (concat (map (\<lambda>c. if c = 34 then [34, 34] else [c]) p) @ 34 # 10 # rest) =
   read_rows Row_start [] (rows @ [field @ p]) rest"
  by (induction p arbitrary: field) simp_all

lemma read_records:
  "read_rows Row_start field rows (concat (map csv_row prices)) = Some (rows @ prices)"
proof (induction prices arbitrary: field rows)
  case Nil
  show ?case by simp
next
  case (Cons p ps)
  have "read_rows Row_start field rows (concat (map csv_row (p # ps))) =
        read_rows In_field [] rows
          (concat (map (\<lambda>c. if c = 34 then [34, 34] else [c]) p) @ 34 # 10 # concat (map csv_row ps))"
    by (simp add: csv_row_def)
  also have "\<dots> = read_rows Row_start [] (rows @ [[] @ p]) (concat (map csv_row ps))"
    by (rule read_field)
  also have "\<dots> = Some ((rows @ [[] @ p]) @ ps)" by (rule Cons.IH)
  finally show ?case by simp
qed

lemma read_csv_csv_text: "read_csv (csv_text prices) = Some prices"
proof -
  have "dropWhile (\<lambda>c. c \<noteq> 10) (csv_text prices) = 10 # concat (map csv_row prices)"
    by (simp add: csv_text_def ustr_def)
  then show ?thesis using read_records [of "[]" "[]" prices] by (simp add: read_csv_def)
qed

lemma save_to_csv_cases:
  "save_to_csv prices p fs =
     (if list_ex (is_file fs) (parents_and_self (parent p)) then (Inl OSError, fs)
      else if is_dir fs p
           then (Inl OSError, fs\<lparr>dirs := dirs fs \<union> set (parents_and_self (parent p))\<rparr>)
           else (Inr (), fs\<lparr>dirs := dirs fs \<union> set (parents_and_self (parent p)),
                          files := (files fs)(p \<mapsto> csv_text prices)\<rparr>))"
proof (cases "list_ex (is_file fs) (parents_and_self (parent p))")
  case True
  then show ?thesis by (simp add: save_to_csv_def mkdir_parents_def)
next
  case nofile: False
  show ?thesis
  proof (cases "is_dir fs p")
    case True
    then have "is_dir (fs\<lparr>dirs := dirs fs \<union> set (parents_and_self (parent p))\<rparr>) p"
      by (auto simp: is_dir_def)
    with nofile True show ?thesis
      by (simp add: save_to_csv_def mkdir_parents_def open_w_def)
  next
    case False
    with nofile save_to_csv_result [OF nofile False] show ?thesis by simp
  qed
qed

subsection \<open>The example runs evaluated\<close>

lemma re_digit_low: "c < 1632 \<Longrightarrow> re_digit c \<longleftrightarrow> 48 \<le> c \<and> c \<le> 57"
  by (auto simp: re_digit_def decimal_zeros_def)

lemmas pattern_eval =
  findall.simps match_at_def re_digit_low re_space_def digit_or_space_def PRICE_SUFFIX_def

lemma findall_scenario_text: "findall scenario_text = [price_68_990, price_68_990]"
  by (simp add: scenario_text_def price_68_990_def pattern_eval)

lemma findall_price_10_000: "findall price_10_000 = [price_10_000]"
  by (simp add: price_10_000_def pattern_eval)

lemma render_scenario_html: "render scenario_html = scenario_text"
  by (simp add: render_def)

lemma render_price_10_000: "render price_10_000 = price_10_000"
  by (simp add: render_def price_10_000_def scenario_html_def ustr_def)

lemma extract_scenario:
  "bs4_get_text e scenario_html = scenario_text \<Longrightarrow>
   extract_prices_from_html e scenario_html = [price_68_990]"
  by (simp add: extract_prices_from_html_def findall_scenario_text)

lemma extract_price_10_000:
  "bs4_get_text e price_10_000 = price_10_000 \<Longrightarrow>
   extract_prices_from_html e price_10_000 = [price_10_000]"
  by (simp add: extract_prices_from_html_def findall_price_10_000)

lemma str_int_2: "str_int 2 = [50]"
  by (simp add: str_int_def nat_digits.simps)

lemma page_url_1: "build_page_url b 1 = b"
  by (simp add: build_page_url_def)

lemma page_url_2: "build_page_url b 2 = b @ ustr ''?page=2''"
  by (simp add: build_page_url_def str_int_2 ustr_def)

lemma upto_1_2: "[1..2] = [1, 2::int]"
  by (simp add: upto.simps)

lemma fetch_same_price: "fetch_page same_price_env url = Some price_10_000"
  by (simp add: fetch_page_def same_price_env_def)




lemma extract_same_price:
  "extract_prices_from_html same_price_env price_10_000 = [price_10_000]"
  by (rule extract_price_10_000) (simp add: same_price_env_def render_price_10_000)


lemma run_same_price:
  "collect_prices same_price_env BASE_URL 2 (3 / 2) =
     Inr \<lparr>all_prices = [price_10_000, price_10_000],
          events = [Fetch 1 BASE_URL, Extract 1 price_10_000, Sleep 1 (3 / 2),
                    Fetch 2 (BASE_URL @ ustr ''?page=2''), Extract 2 price_10_000]\<rparr>"
  by (simp add: collect_prices_closed upto_1_2 page_prices_def page_events_def
        page_url_1 page_url_2 fetch_same_price extract_same_price)




lemma save_to_csv_returns:
  "save_to_csv prices p fs = (Inr u, fs') \<Longrightarrow>
   \<not> list_ex (is_file fs) (parents_and_self (parent p)) \<and> \<not> is_dir fs p \<and>
   fs' = fs\<lparr>dirs := dirs fs \<union> set (parents_and_self (parent p)),
             files := (files fs)(p \<mapsto> csv_text prices)\<rparr>"
  by (simp add: save_to_csv_cases split: if_splits)

lemma parent_dir_exists:
  "is_dir (fs\<lparr>dirs := dirs fs \<union> set (parents_and_self q), files := m\<rparr>) q"
  using self_in_parents_and_self [of q] by (auto simp: is_dir_def)



lemma save_into_empty_fs:
  "save_to_csv prices [ustr ''data'', ustr ''divan_prices_raw.csv''] empty_fs =
     (Inr (),
      \<lparr>dirs = {[ustr ''data'']},
       files = [[ustr ''data'', ustr ''divan_prices_raw.csv''] \<mapsto> csv_text prices]\<rparr>)"
  by (simp add: save_to_csv_cases empty_fs_def parent_def parents_and_self_def is_file_def
        is_dir_def)




text \<open>
  Delays that \<open>time.sleep\<close> refuses: ten thousand million seconds do not fit into 64 bits
  of nanoseconds, and a negative delay is rejected. A two-page run whose first page is
  fetched stops with that exception at the pause after page 1.
\<close>

lemma time_sleep_too_long: "time_sleep k 10000000000 st = Inl OverflowError"
  by (simp add: time_sleep_def)

lemma time_sleep_negative: "time_sleep k (- 1) st = Inl ValueError"
  by (simp add: time_sleep_def)

lemma run_same_price_too_long:
  "collect_prices same_price_env BASE_URL 2 10000000000 = Inl OverflowError"
  by (simp add: collect_prices_def upto_1_2 loop_body_def Let_def page_url_1
        fetch_same_price time_sleep_too_long)

lemma run_same_price_negative:
  "collect_prices same_price_env BASE_URL 2 (- 1) = Inl ValueError"
  by (simp add: collect_prices_def upto_1_2 loop_body_def Let_def page_url_1
        fetch_same_price time_sleep_negative)

section \<open>The claims\<close>

text \<open>
  C3. For every HTML input, the list returned by \<open>extract_prices_from_html\<close> has no
  duplicate elements, and every element matches the price pattern exactly: it is one
  digit, followed by a non-empty run of digits and whitespace characters, followed by the
  currency suffix.
\<close>

theorem extract_prices_distinct_and_matching:
  "distinct (extract_prices_from_html e html) \<and>
   (\<forall>p \<in> set (extract_prices_from_html e html).
      \<exists>d run. p = d # run @ PRICE_SUFFIX \<and> re_digit d \<and> run \<noteq> []
        \<and> (\<forall>c \<in> set run. re_digit c \<or> re_space c))"
proof
  have "distinct (unique_loop (findall (bs4_get_text e html)) (set []) [])"
    by (rule unique_loop_distinct) simp
  then show "distinct (extract_prices_from_html e html)"
    by (simp add: extract_prices_from_html_def)
next
  have s: "set (extract_prices_from_html e html) = set (findall (bs4_get_text e html))"
    using unique_loop_set [of "findall (bs4_get_text e html)" "[]"]
    by (simp add: extract_prices_from_html_def)
  show "\<forall>p \<in> set (extract_prices_from_html e html).
      \<exists>d run. p = d # run @ PRICE_SUFFIX \<and> re_digit d \<and> run \<noteq> []
        \<and> (\<forall>c \<in> set run. re_digit c \<or> re_space c)"
    unfolding s using findall_shape by (simp add: digit_or_space_def)
qed

theorem extract_prices_distinct_and_matching_witness:
  "extract_prices_from_html scenario_env scenario_html = [price_68_990] \<and>
   distinct (extract_prices_from_html scenario_env scenario_html) \<and>
   (\<exists>d run. price_68_990 = d # run @ PRICE_SUFFIX \<and> re_digit d \<and> run \<noteq> []
      \<and> (\<forall>c \<in> set run. re_digit c \<or> re_space c))"
proof -
  have "bs4_get_text scenario_env scenario_html = scenario_text"
    by (simp add: scenario_env_def render_scenario_html)
  then have "extract_prices_from_html scenario_env scenario_html = [price_68_990]"
    by (rule extract_scenario)
  with extract_prices_distinct_and_matching [of scenario_env scenario_html]
  show ?thesis by simp
qed



text \<open>
  C10. For every page count \<open>N \<le> 0\<close>, \<open>collect_prices\<close> returns the empty list, and no
  fetch, extraction or pause takes place: the run has no events.
\<close>

theorem collect_prices_nonpositive_pages:
  "pages \<le> 0 \<Longrightarrow>
   collect_prices e base_url pages delay = Inr \<lparr>all_prices = [], events = []\<rparr>"
  by (simp add: collect_prices_def)

theorem collect_prices_nonpositive_pages_witness:
  "(0::int) \<le> 0 \<and> (- 3::int) \<le> 0 \<and>
   collect_prices same_price_env BASE_URL 0 (3 / 2) = Inr \<lparr>all_prices = [], events = []\<rparr> \<and>
   collect_prices same_price_env BASE_URL (- 3) (- 1) = Inr \<lparr>all_prices = [], events = []\<rparr>"
  using collect_prices_nonpositive_pages [of 0 same_price_env BASE_URL "3 / 2"]
    collect_prices_nonpositive_pages [of "- 3" same_price_env BASE_URL "- 1"]
  by simp

text \<open>
  C6. \<open>build_page_url base 1\<close> is \<open>base\<close> itself; for every integer \<open>k > 1\<close>,
  \<open>build_page_url base k\<close> is \<open>base\<close>, then \<open>?page=\<close>, then the decimal representation of
  \<open>k\<close>: a non-empty string of the digits 0 to 9 with no leading zero whose value in base
  ten is \<open>k\<close>.
\<close>

theorem build_page_url_pages:
  "build_page_url base_url 1 = base_url \<and>
   (1 < k \<longrightarrow>
      build_page_url base_url k = base_url @ ustr ''?page='' @ str_int k \<and>
      str_int k \<noteq> [] \<and> (\<forall>c \<in> set (str_int k). 48 \<le> c \<and> c \<le> 57) \<and>
      hd (str_int k) \<noteq> 48 \<and> int (decimal_value (str_int k)) = k)"
proof (intro conjI impI)
  show "build_page_url base_url 1 = base_url" by (simp add: build_page_url_def)
next
  assume k: "1 < k"
  then show "build_page_url base_url k = base_url @ ustr ''?page='' @ str_int k"
    by (simp add: build_page_url_def)
  from k have s: "str_int k = nat_digits (nat k)" and pos: "0 < nat k"
    by (simp_all add: str_int_def)
  from nat_digits_hd [OF pos] show "str_int k \<noteq> []" and "hd (str_int k) \<noteq> 48"
    unfolding s by simp_all
  show "\<forall>c \<in> set (str_int k). 48 \<le> c \<and> c \<le> 57"
    unfolding s using nat_digits_range by blast
  from k show "int (decimal_value (str_int k)) = k"
    unfolding s by (simp add: nat_digits_value)
qed

theorem build_page_url_pages_witness:
  "(1::int) < 2 \<and>
   build_page_url BASE_URL 1 = ustr ''https://www.divan.ru/category/divany'' \<and>
   build_page_url BASE_URL 2 = ustr ''https://www.divan.ru/category/divany?page=2'' \<and>
   str_int 2 = ustr ''2'' \<and> decimal_value (str_int 2) = 2"
  using build_page_url_pages [of BASE_URL 2]
  by (simp add: BASE_URL_def ustr_def str_int_2)





text \<open>
  C1, as the code has it. Whenever \<open>collect_prices\<close> returns, its list is the
  concatenation, in page order, of what the pages contribute, and each page's contribution
  has no duplicate strings: repeats are removed within a page, not across pages. A run
  over at most one page therefore returns a list without duplicates. A run over two pages
  that show the same price returns that price twice.
\<close>

theorem collected_prices_distinct_per_page:
  "collect_prices e base_url pages delay = Inr st \<Longrightarrow>
   all_prices st = concat (map (page_prices e base_url) [1..pages]) \<and>
   (\<forall>k. distinct (page_prices e base_url k)) \<and>
   (pages \<le> 1 \<longrightarrow> distinct (all_prices st))"
proof (intro conjI allI impI)
  assume r: "collect_prices e base_url pages delay = Inr st"
  from collect_prices_Inr [OF r]
  have st: "st = \<lparr>all_prices = concat (map (page_prices e base_url) [1..pages]),
         events = concat (map (page_events e base_url pages delay) [1..pages])\<rparr>" .
  show ap: "all_prices st = concat (map (page_prices e base_url) [1..pages])"
    unfolding st by simp
  have ex: "distinct (extract_prices_from_html e h)" for h
  proof -
    have "distinct (unique_loop (findall (bs4_get_text e h)) (set []) [])"
      by (rule unique_loop_distinct) simp
    then show ?thesis by (simp add: extract_prices_from_html_def)
  qed
  show d: "distinct (page_prices e base_url k)" for k
    by (simp add: page_prices_def ex split: option.splits)
  show "distinct (all_prices st)" if "pages \<le> 1"
  proof (cases "pages = 1")
    case True
    then have "[1..pages] = [1]" by (simp add: upto.simps)
    then show ?thesis unfolding ap by (simp add: d)
  next
    case False
    with that have "[1..pages] = []" by simp
    then show ?thesis unfolding ap by simp
  qed
qed

theorem collected_prices_distinct_per_page_witness:
  "collect_prices same_price_env BASE_URL 2 (3 / 2) =
     Inr \<lparr>all_prices = [price_10_000, price_10_000],
          events = [Fetch 1 BASE_URL, Extract 1 price_10_000, Sleep 1 (3 / 2),
                    Fetch 2 (BASE_URL @ ustr ''?page=2''), Extract 2 price_10_000]\<rparr> \<and>
   concat (map (page_prices same_price_env BASE_URL) [1..2]) = [price_10_000, price_10_000] \<and>
   distinct (page_prices same_price_env BASE_URL 1) \<and>
   distinct (page_prices same_price_env BASE_URL 2)"
  using collected_prices_distinct_per_page [OF run_same_price] run_same_price
  by simp

theorem collected_prices_repeat_across_pages:
  "collect_prices same_price_env BASE_URL 2 (3 / 2) =
     Inr \<lparr>all_prices = [price_10_000, price_10_000],
          events = [Fetch 1 BASE_URL, Extract 1 price_10_000, Sleep 1 (3 / 2),
                    Fetch 2 (BASE_URL @ ustr ''?page=2''), Extract 2 price_10_000]\<rparr> \<and>
   \<not> distinct [price_10_000, price_10_000]"
  by (simp add: run_same_price)

text \<open>
  C9. Whenever \<open>save_to_csv\<close> returns on the empty list, the parent directory of the output
  path exists afterwards, the file holds exactly the header line, and nothing else in the
  file system has changed; reading the file back gives no data rows. The call returns
  whenever no regular file stands in the way of the parent directory and the output path is
  not a directory: the writer has no guard for the empty list.
\<close>

theorem save_empty_list_writes_header:
  "(save_to_csv [] output_path fs = (Inr u, fs') \<longrightarrow>
      is_dir fs' (parent output_path) \<and>
      files fs' output_path = Some (ustr ''price_raw'' @ [10]) \<and>
      Option.bind (files fs' output_path) read_csv = Some [] \<and>
      fs' = fs\<lparr>dirs := dirs fs \<union> set (parents_and_self (parent output_path)),
                files := (files fs)(output_path \<mapsto> ustr ''price_raw'' @ [10])\<rparr>) \<and>
   (\<not> list_ex (is_file fs) (parents_and_self (parent output_path)) \<and>
    \<not> is_dir fs output_path \<longrightarrow>
      (\<exists>fs'. save_to_csv [] output_path fs = (Inr (), fs')))"
proof (intro conjI impI)
  assume "save_to_csv [] output_path fs = (Inr u, fs')"
  from save_to_csv_returns [OF this]
  have fs': "fs' = fs\<lparr>dirs := dirs fs \<union> set (parents_and_self (parent output_path)),
                files := (files fs)(output_path \<mapsto> csv_text [])\<rparr>" by simp
  have t: "csv_text [] = ustr ''price_raw'' @ [10]" by (simp add: csv_text_def)
  show "is_dir fs' (parent output_path)" unfolding fs' by (rule parent_dir_exists)
  show "files fs' output_path = Some (ustr ''price_raw'' @ [10])" unfolding fs' t by simp
  show "Option.bind (files fs' output_path) read_csv = Some []"
    unfolding fs' using read_csv_csv_text [of "[]"] by simp
  show "fs' = fs\<lparr>dirs := dirs fs \<union> set (parents_and_self (parent output_path)),
                files := (files fs)(output_path \<mapsto> ustr ''price_raw'' @ [10])\<rparr>"
    unfolding fs' t ..
next
  assume "\<not> list_ex (is_file fs) (parents_and_self (parent output_path)) \<and>
    \<not> is_dir fs output_path"
  then show "\<exists>fs'. save_to_csv [] output_path fs = (Inr (), fs')"
    by (simp add: save_to_csv_cases)
qed

theorem save_empty_list_writes_header_witness:
  "save_to_csv [] [ustr ''data'', ustr ''divan_prices_raw.csv''] empty_fs =
     (Inr (),
      \<lparr>dirs = {[ustr ''data'']},
       files = [[ustr ''data'', ustr ''divan_prices_raw.csv''] \<mapsto> ustr ''price_raw'' @ [10]]\<rparr>) \<and>
   is_dir \<lparr>dirs = {[ustr ''data'']},
       files = [[ustr ''data'', ustr ''divan_prices_raw.csv''] \<mapsto> ustr ''price_raw'' @ [10]]\<rparr>
     (parent [ustr ''data'', ustr ''divan_prices_raw.csv''])"
proof -
  have r: "save_to_csv [] [ustr ''data'', ustr ''divan_prices_raw.csv''] empty_fs =
     (Inr (),
      \<lparr>dirs = {[ustr ''data'']},
       files = [[ustr ''data'', ustr ''divan_prices_raw.csv''] \<mapsto> ustr ''price_raw'' @ [10]]\<rparr>)"
    using save_into_empty_fs [of "[]"] by (simp add: csv_text_def)
  from save_empty_list_writes_header
    [of "[ustr ''data'', ustr ''divan_prices_raw.csv'']" empty_fs "()"
        "\<lparr>dirs = {[ustr ''data'']},
       files = [[ustr ''data'', ustr ''divan_prices_raw.csv''] \<mapsto> ustr ''price_raw'' @ [10]]\<rparr>"] r
  have "is_dir \<lparr>dirs = {[ustr ''data'']},
       files = [[ustr ''data'', ustr ''divan_prices_raw.csv''] \<mapsto> ustr ''price_raw'' @ [10]]\<rparr>
     (parent [ustr ''data'', ustr ''divan_prices_raw.csv''])" by blast
  with r show ?thesis by blast
qed

text \<open>
  C7. Whenever \<open>save_to_csv\<close> returns, the file holds the header line followed by one record
  per price string, each the value between double quotes with its double quotes doubled
  and a line feed after it; reading that file back, skipping the header and undoing the
  quoting, gives exactly the list that was written, in order. The call returns whenever
  the file system lets the directory and the file be created.
\<close>

theorem csv_round_trip:
  "(save_to_csv prices output_path fs = (Inr u, fs') \<longrightarrow>
      files fs' output_path = Some (csv_text prices) \<and>
      Option.bind (files fs' output_path) read_csv = Some prices) \<and>
   (\<not> list_ex (is_file fs) (parents_and_self (parent output_path)) \<and>
    \<not> is_dir fs output_path \<longrightarrow>
      (\<exists>fs'. save_to_csv prices output_path fs = (Inr (), fs')))"
proof (intro conjI impI)
  assume "save_to_csv prices output_path fs = (Inr u, fs')"
  from save_to_csv_returns [OF this]
  have fs': "fs' = fs\<lparr>dirs := dirs fs \<union> set (parents_and_self (parent output_path)),
                files := (files fs)(output_path \<mapsto> csv_text prices)\<rparr>" by simp
  show "files fs' output_path = Some (csv_text prices)" unfolding fs' by simp
  show "Option.bind (files fs' output_path) read_csv = Some prices"
    unfolding fs' by (simp add: read_csv_csv_text)
next
  assume "\<not> list_ex (is_file fs) (parents_and_self (parent output_path)) \<and>
    \<not> is_dir fs output_path"
  then show "\<exists>fs'. save_to_csv prices output_path fs = (Inr (), fs')"
    by (simp add: save_to_csv_cases)
qed

theorem csv_round_trip_witness:
  "save_to_csv [price_68_990, price_45_990, [34, 49, 10, 34]]
       [ustr ''data'', ustr ''divan_prices_raw.csv''] empty_fs =
     (Inr (),
      \<lparr>dirs = {[ustr ''data'']},
       files = [[ustr ''data'', ustr ''divan_prices_raw.csv''] \<mapsto>
                  csv_text [price_68_990, price_45_990, [34, 49, 10, 34]]]\<rparr>) \<and>
   csv_text [price_68_990, price_45_990, [34, 49, 10, 34]] =
     ustr ''price_raw'' @ [10] @
     [34] @ price_68_990 @ [34, 10] @ [34] @ price_45_990 @ [34, 10] @
     [34, 34, 34, 49, 10, 34, 34, 34, 10] \<and>
   read_csv (csv_text [price_68_990, price_45_990, [34, 49, 10, 34]]) =
     Some [price_68_990, price_45_990, [34, 49, 10, 34]]"
proof -
  let ?ps = "[price_68_990, price_45_990, [34, 49, 10, 34]]"
  let ?p = "[ustr ''data'', ustr ''divan_prices_raw.csv'']"
  let ?fs = "\<lparr>dirs = {[ustr ''data'']}, files = [?p \<mapsto> csv_text ?ps]\<rparr>"
  have r: "save_to_csv ?ps ?p empty_fs = (Inr (), ?fs)" by (rule save_into_empty_fs)
  from csv_round_trip [of ?ps ?p empty_fs "()" ?fs] r
  have "Option.bind (files ?fs ?p) read_csv = Some ?ps" by blast
  then have rt: "read_csv (csv_text ?ps) = Some ?ps" by simp
  have t: "csv_text ?ps =
     ustr ''price_raw'' @ [10] @
     [34] @ price_68_990 @ [34, 10] @ [34] @ price_45_990 @ [34, 10] @
     [34, 34, 34, 49, 10, 34, 34, 34, 10]"
    by (simp add: csv_text_def csv_row_def price_68_990_def price_45_990_def)
  from r t rt show ?thesis by blast
qed



end
